theory Spec2Isabelle
  imports Main "HOL-Library.Word"
begin

section \<open>The USB shell of the updater: \<open>updatershell/usbshell.cpp\<close>\<close>

text \<open>
  The file holds one function, \<open>usbshell_loop\<close>: a \<open>while (1)\<close> loop that reads a
  fixed-size request frame from the USB transfer object, compares its command word with
  seven four-character tags in an \<open>if\<close>/\<open>else if\<close> chain, writes a response frame and,
  for some commands, runs a data phase on the same transfer object.

  The loop is embedded as a function of
  \<^item> the frames the host sends, one per \<open>transfer->read(&request, sizeof(request))\<close>;
  \<^item> the functions the loop calls and that are declared outside this file
    (\<open>get_device_info\<close>, \<open>popen2\<close>, \<open>open\<close>, the bootloader reader, the streaming helpers
    of \<open>usbtransfer.hpp\<close>), gathered in a record of functions over an arbitrary world
    state \<open>'w\<close>, which every call may change;
  and it returns the sequence of calls the loop makes, in program order.
\<close>

subsection \<open>Machine types and the two frames\<close>

text \<open>
  \<open>int\<close> is a 32-bit two's complement word (the request frame is \<open>4 + 0xfff8 = 0x10000\<close>
  bytes); \<open>sint\<close> reads it. \<open>char\<close> is a byte. The width of \<open>size_t\<close> is left open:
  it is the type parameter \<open>'s\<close> of the bootloader reader below.
\<close>

type_synonym s32 = "32 word"

text \<open>\<^verbatim>\<open>struct usb_shell_request { int cmd; char data[0xfff8]; };\<close>\<close>

record usb_shell_request =
  cmd :: s32
  data :: string

text \<open>\<^verbatim>\<open>struct usb_shell_response { int result; };\<close>\<close>

record usb_shell_response =
  result :: s32

definition USB_RESULT_SUCCESS :: s32 where
  "USB_RESULT_SUCCESS = 0"

definition USB_RESULT_ERROR :: s32 where
  "USB_RESULT_ERROR = - 1"

text \<open>
  \<^verbatim>\<open>*(int *) "TEST"\<close> loads the first four bytes of the literal as an \<open>int\<close>. The device
  is little-endian, so the first character is the least significant byte. (The request's
  \<open>cmd\<close> is loaded from the frame the same way, so the comparison comes out the same on
  a big-endian machine.)
\<close>

definition int_of_chars :: "string \<Rightarrow> s32" where
  "int_of_chars s = foldr (\<lambda>c acc. of_char c + 256 * acc) (take 4 s) 0"

definition CMD_TEST :: s32 where "CMD_TEST = int_of_chars ''TEST''"
definition CMD_INFO :: s32 where "CMD_INFO = int_of_chars ''INFO''"
definition CMD_SHEL :: s32 where "CMD_SHEL = int_of_chars ''SHEL''"
definition CMD_EXEC :: s32 where "CMD_EXEC = int_of_chars ''EXEC''"
definition CMD_PULL :: s32 where "CMD_PULL = int_of_chars ''PULL''"
definition CMD_BLDR :: s32 where "CMD_BLDR = int_of_chars ''BLDR''"
definition CMD_EXIT :: s32 where "CMD_EXIT = int_of_chars ''EXIT''"

subsection \<open>The functions the loop calls\<close>

text \<open>
  None of them is defined in this file, so each is a parameter. A call takes the world
  state and returns its C result with the new world state.
  \<^item> \<open>get_device_info(&info)\<close> returns its \<open>int\<close> and the record it filled
    (\<open>device_info\<close> is declared in \<open>deviceinfo.h\<close>: the type parameter \<open>'i\<close>).
  \<^item> \<open>popen2(args, &fd_stdin, &fd_stdout)\<close> returns the pid and the two descriptors it
    stored; the flag says whether the second argument was a pointer (\<open>True\<close>) or
    \<open>NULL\<close> (\<open>False\<close>). The payload is handed over as the buffer it is: the callee, not
    the loop, looks for its terminating zero byte.
  \<^item> \<open>open(path, O_RDONLY)\<close> of \<open>fcntl.h\<close> returns its \<open>int\<close> and leaves an error
    number in \<open>errno\<close>; the pair is (return value, \<open>errno\<close> after the call). POSIX:
    a non-negative descriptor on success; on failure \<open>-1\<close>, the reason in \<open>errno\<close>.
    The loop reads the return value only. \<open>close(fd)\<close> returns nothing the loop reads.
  \<^item> \<open>usb_transfer_socket\<close> and \<open>usb_transfer_read_fd\<close> relay descriptors over the
    transfer object and return when done. \<open>usb_transfer_read_fd(transfer, fd)\<close> returns
    the bytes it put on the wire with the new world.
  \<^item> \<open>bootloader_get_num_blocks()\<close> returns a \<open>size_t\<close>;
    \<open>bootloader_get_blocks(fd, blocks)\<close> fills the caller's array: it returns the
    descriptor it stores at each index; \<open>bootloader_get_block_size(block)\<close> reads a
    descriptor (\<open>bootloader_block\<close> is the type parameter \<open>'b\<close>);
    \<open>bootloader_read_block(fd, block, buf)\<close> fills the caller's buffer: it returns the
    byte it stores at each index.
\<close>

record (overloaded) ('w, 'i, 'b, 's) sys =
  get_device_info :: "'w \<Rightarrow> (s32 \<times> 'i) \<times> 'w"
  popen2 :: "string list \<Rightarrow> bool \<Rightarrow> 'w \<Rightarrow> (s32 \<times> s32 \<times> s32) \<times> 'w"
  open_rdonly :: "string \<Rightarrow> 'w \<Rightarrow> (s32 \<times> int) \<times> 'w"
  close_fd :: "s32 \<Rightarrow> 'w \<Rightarrow> 'w"
  usb_transfer_socket :: "s32 \<Rightarrow> s32 \<Rightarrow> 'w \<Rightarrow> 'w"
  usb_transfer_read_fd :: "s32 \<Rightarrow> 'w \<Rightarrow> string \<times> 'w"
  BOOTLOADER_DEV :: string
  bootloader_get_num_blocks :: "'w \<Rightarrow> ('s::len) word \<times> 'w"
  bootloader_get_blocks :: "s32 \<Rightarrow> 'w \<Rightarrow> (nat \<Rightarrow> 'b) \<times> 'w"
  bootloader_get_block_size :: "'b \<Rightarrow> 's word"
  bootloader_read_block :: "s32 \<Rightarrow> 'b \<Rightarrow> 'w \<Rightarrow> (nat \<Rightarrow> char) \<times> 'w"

subsection \<open>What the loop does, call by call\<close>

text \<open>
  One event per call the loop makes, with the arguments that matter and, for a call
  that returns a value, the value. The first seven are the traffic on the transfer
  object: \<open>Read_Request\<close> is \<open>transfer->read(&request, sizeof(request))\<close>,
  \<open>Write_Response\<close> is \<open>transfer->write(&response, sizeof(response))\<close>, \<open>Read_Null\<close> is
  \<open>transfer->read(NULL, 0)\<close>, \<open>Write_Info\<close> is \<open>transfer->write(&info, sizeof(info))\<close>,
  and \<open>Usb_Transfer_Read_Buffer buf l\<close> is \<open>usb_transfer_read_buffer(transfer, block_buf, l)\<close>
  with the contents of the buffer at the call. \<open>Usb_Transfer_Read_Fd fd bytes\<close> is
  \<open>usb_transfer_read_fd(transfer, fd)\<close> with the bytes the call put on the wire.
\<close>

datatype ('i, 'b) event =
    Read_Request usb_shell_request
  | Write_Response usb_shell_response
  | Read_Null
  | Write_Info 'i
  | Usb_Transfer_Socket s32 s32
  | Usb_Transfer_Read_Fd s32 string
  | Usb_Transfer_Read_Buffer string nat
  | Get_Device_Info s32
  | Popen2 "string list" bool s32
  | Open_Rdonly string s32
  | Close_Fd s32
  | Bootloader_Get_Num_Blocks nat
  | Bootloader_Get_Blocks s32
  | Bootloader_Read_Block s32 'b

subsection \<open>The \<open>BLDR\<close> block loop\<close>

text \<open>
  \<^verbatim>\<open>
  for (size_t i = 0; i < num_blocks; i++) {
      size_t l = bootloader_get_block_size(blocks + i);
      char block_buf[l];
      bootloader_read_block(fd, blocks + i, block_buf);
      usb_transfer_read_buffer(transfer, block_buf, l);
  }
  \<close>
  \<open>blocks\<close> is the array \<open>bootloader_block blocks[num_blocks]\<close> after
  \<open>bootloader_get_blocks\<close> filled it, so \<open>i\<close> stays inside it. \<open>block_buf\<close> has \<open>l\<close>
  cells, filled by \<open>bootloader_read_block\<close>. Both arrays live on the stack; running out
  of stack is outside the model.
\<close>

function for_blocks ::
  "('w, 'i, 'b, 's::len) sys \<Rightarrow> s32 \<Rightarrow> 'b list \<Rightarrow> nat \<Rightarrow> nat \<Rightarrow> 'w \<Rightarrow> 'w \<times> ('i, 'b) event list"
where
  "for_blocks sys fd blocks i num_blocks w =
     (if i < num_blocks then
        (let l = unat (bootloader_get_block_size sys (blocks ! i));
             (filled, w1) = bootloader_read_block sys fd (blocks ! i) w;
             block_buf = map filled [0..<l];
             (w2, evs) = for_blocks sys fd blocks (Suc i) num_blocks w1
         in (w2, Bootloader_Read_Block fd (blocks ! i) # Usb_Transfer_Read_Buffer block_buf l # evs))
      else (w, []))"
  by pat_completeness auto
termination
  by (relation "measure (\<lambda>(sys, fd, blocks, i, num_blocks, w). num_blocks - i)") auto

declare for_blocks.simps [simp del]

subsection \<open>One pass through the body of \<open>while (1)\<close>\<close>

text \<open>
  The body after \<open>transfer->read(&request, sizeof(request))\<close>: the \<open>if\<close>/\<open>else if\<close> chain
  in the order of the source. The result is (left by \<open>break\<close>?, new world, events).
  \<open>fd >= 0\<close> and \<open>pid >= 0\<close> compare signed \<open>int\<close>s; \<open>response.result = num_blocks\<close>
  converts a \<open>size_t\<close> to \<open>int\<close>, which keeps the low 32 bits (\<open>ucast\<close>).
\<close>

definition loop_body ::
  "('w, 'i, 'b, 's::len) sys \<Rightarrow> usb_shell_request \<Rightarrow> 'w \<Rightarrow> bool \<times> 'w \<times> ('i, 'b) event list"
where
  "loop_body sys request w =
    (if cmd request = CMD_TEST then
       (False, w, [Write_Response \<lparr>result = USB_RESULT_SUCCESS\<rparr>])
     else if cmd request = CMD_INFO then
       (let ((err, info), w1) = get_device_info sys w;
            response = \<lparr>result = (if err = 0 then USB_RESULT_SUCCESS else err)\<rparr>
        in (False, w1,
            [Get_Device_Info err, Write_Response response] @
            (if err = 0 then [Read_Null, Write_Info info] else [])))
     else if cmd request = CMD_SHEL then
       (let args = [''sh'', ''-i''];
            ((pid, fd_stdin, fd_stdout), w1) = popen2 sys args True w;
            response = \<lparr>result = (if 0 \<le> sint pid then USB_RESULT_SUCCESS else pid)\<rparr>
        in if 0 \<le> sint pid
           then (False, usb_transfer_socket sys fd_stdin fd_stdout w1,
                 [Popen2 args True pid, Write_Response response,
                  Usb_Transfer_Socket fd_stdin fd_stdout])
           else (False, w1, [Popen2 args True pid, Write_Response response]))
     else if cmd request = CMD_EXEC then
       (let args = [''sh'', ''-c'', data request];
            ((pid, fd_stdin, fd_stdout), w1) = popen2 sys args False w;
            response = \<lparr>result = (if 0 \<le> sint pid then USB_RESULT_SUCCESS else pid)\<rparr>
        in if 0 \<le> sint pid
           then (False, usb_transfer_socket sys 0 fd_stdout w1,
                 [Popen2 args False pid, Write_Response response,
                  Usb_Transfer_Socket 0 fd_stdout])
           else (False, w1, [Popen2 args False pid, Write_Response response]))
     else if cmd request = CMD_PULL then
       (let ((fd, errno), w1) = open_rdonly sys (data request) w;
            response = \<lparr>result = (if 0 \<le> sint fd then USB_RESULT_SUCCESS else fd)\<rparr>
        in if 0 \<le> sint fd
           then (let (bytes, w2) = usb_transfer_read_fd sys fd w1
                 in (False, w2,
                     [Open_Rdonly (data request) fd, Write_Response response,
                      Usb_Transfer_Read_Fd fd bytes]))
           else (False, w1, [Open_Rdonly (data request) fd, Write_Response response]))
     else if cmd request = CMD_BLDR then
       (let ((fd, errno), w1) = open_rdonly sys (BOOTLOADER_DEV sys) w;
            (num_blocks, w2) = bootloader_get_num_blocks sys w1;
            response = \<lparr>result = ucast num_blocks\<rparr>;
            (stored, w3) = bootloader_get_blocks sys fd w2;
            blocks = map stored [0..<unat num_blocks];
            (w4, evs) = for_blocks sys fd blocks 0 (unat num_blocks) w3
        in (False, close_fd sys fd w4,
            [Open_Rdonly (BOOTLOADER_DEV sys) fd,
             Bootloader_Get_Num_Blocks (unat num_blocks),
             Write_Response response,
             Bootloader_Get_Blocks fd] @ evs @ [Close_Fd fd]))
     else if cmd request = CMD_EXIT then
       (True, w, [Write_Response \<lparr>result = USB_RESULT_SUCCESS\<rparr>])
     else
       (False, w, [Write_Response \<lparr>result = USB_RESULT_ERROR\<rparr>]))"

subsection \<open>The loop\<close>

text \<open>
  \<open>usbshell_loop\<close> runs \<open>while (1)\<close> on the frames the host sends. It ends in one of two
  ways: \<open>Exited\<close>, by the \<open>break\<close> of \<open>EXIT\<close> (the \<open>usleep\<close> and the two \<open>delete\<close>s
  follow; they make no traffic), or \<open>Waiting\<close>, blocked in \<open>transfer->read\<close> because the
  host has sent no further frame. The transfer object is taken to deliver and accept
  every frame; a failing transfer throws out of the function and is outside the model.
  The result is (outcome, frames never read, final world, events in program order).
\<close>

datatype outcome = Exited | Waiting

fun usbshell_loop ::
  "('w, 'i, 'b, 's::len) sys \<Rightarrow> usb_shell_request list \<Rightarrow> 'w \<Rightarrow>
     outcome \<times> usb_shell_request list \<times> 'w \<times> ('i, 'b) event list"
where
  "usbshell_loop sys [] w = (Waiting, [], w, [])"
| "usbshell_loop sys (request # pending) w =
     (case loop_body sys request w of
        (True, w1, evs) \<Rightarrow> (Exited, pending, w1, Read_Request request # evs)
      | (False, w1, evs) \<Rightarrow>
          (case usbshell_loop sys pending w1 of
             (out, unread, w2, evs2) \<Rightarrow> (out, unread, w2, Read_Request request # evs @ evs2)))"

declare usbshell_loop.simps [simp del]

definition loop_outcome :: "('w, 'i, 'b, 's::len) sys \<Rightarrow> usb_shell_request list \<Rightarrow> 'w \<Rightarrow> outcome" where
  "loop_outcome sys frames w = fst (usbshell_loop sys frames w)"

definition loop_unread ::
  "('w, 'i, 'b, 's::len) sys \<Rightarrow> usb_shell_request list \<Rightarrow> 'w \<Rightarrow> usb_shell_request list" where
  "loop_unread sys frames w = fst (snd (usbshell_loop sys frames w))"

definition loop_world :: "('w, 'i, 'b, 's::len) sys \<Rightarrow> usb_shell_request list \<Rightarrow> 'w \<Rightarrow> 'w" where
  "loop_world sys frames w = fst (snd (snd (usbshell_loop sys frames w)))"

definition loop_trace ::
  "('w, 'i, 'b, 's::len) sys \<Rightarrow> usb_shell_request list \<Rightarrow> 'w \<Rightarrow> ('i, 'b) event list" where
  "loop_trace sys frames w = snd (snd (snd (usbshell_loop sys frames w)))"

subsection \<open>Reading a trace\<close>

text \<open>The request frames read, the response frames written, the buffers streamed
  (contents and length argument), each in the order of the trace.\<close>

fun requests_read :: "('i, 'b) event list \<Rightarrow> usb_shell_request list" where
  "requests_read [] = []"
| "requests_read (Read_Request q # es) = q # requests_read es"
| "requests_read (e # es) = requests_read es"

fun responses_written :: "('i, 'b) event list \<Rightarrow> usb_shell_response list" where
  "responses_written [] = []"
| "responses_written (Write_Response r # es) = r # responses_written es"
| "responses_written (e # es) = responses_written es"

fun buffers_streamed :: "('i, 'b) event list \<Rightarrow> (string \<times> nat) list" where
  "buffers_streamed [] = []"
| "buffers_streamed (Usb_Transfer_Read_Buffer buf l # es) = (buf, l) # buffers_streamed es"
| "buffers_streamed (e # es) = buffers_streamed es"

text \<open>The descriptor argument of every call on the bootloader device after \<open>open\<close>.\<close>

fun handles_used :: "('i, 'b) event list \<Rightarrow> s32 list" where
  "handles_used [] = []"
| "handles_used (Bootloader_Get_Blocks fd # es) = fd # handles_used es"
| "handles_used (Bootloader_Read_Block fd b # es) = fd # handles_used es"
| "handles_used (Close_Fd fd # es) = fd # handles_used es"
| "handles_used (e # es) = handles_used es"

text \<open>
  The traffic on the transfer object, as a three-state acceptor. \<open>Idle\<close>: nothing read
  yet. \<open>Pending\<close>: a request frame has been read and not answered. \<open>Answered\<close>: its
  response frame has been written; the data phase, if any, runs here. A request frame
  may be read in \<open>Idle\<close> and \<open>Answered\<close> only, a response frame written in \<open>Pending\<close>
  only, data-phase traffic may occur in \<open>Answered\<close> only. Calls that do not touch the
  transfer object leave the phase alone.
\<close>

datatype phase = Idle | Pending | Answered

fun phase_step :: "phase \<Rightarrow> ('i, 'b) event \<Rightarrow> phase option" where
  "phase_step p (Read_Request q) = (if p = Pending then None else Some Pending)"
| "phase_step p (Write_Response r) = (if p = Pending then Some Answered else None)"
| "phase_step p Read_Null = (if p = Answered then Some Answered else None)"
| "phase_step p (Write_Info info) = (if p = Answered then Some Answered else None)"
| "phase_step p (Usb_Transfer_Socket fd_in fd_out) = (if p = Answered then Some Answered else None)"
| "phase_step p (Usb_Transfer_Read_Fd fd bytes) = (if p = Answered then Some Answered else None)"
| "phase_step p (Usb_Transfer_Read_Buffer buf l) = (if p = Answered then Some Answered else None)"
| "phase_step p e = Some p"

fun phase_run :: "phase \<Rightarrow> ('i, 'b) event list \<Rightarrow> phase option" where
  "phase_run p [] = Some p"
| "phase_run p (e # es) = (case phase_step p e of None \<Rightarrow> None | Some p' \<Rightarrow> phase_run p' es)"

definition lock_step :: "('i, 'b) event list \<Rightarrow> bool" where
  "lock_step tr = (phase_run Idle tr = Some Idle \<or> phase_run Idle tr = Some Answered)"

text \<open>The value of an \<open>int\<close> that holds the low 32 bits of the natural number \<open>n\<close>.\<close>

definition int_of_low32 :: "nat \<Rightarrow> int" where
  "int_of_low32 n = (if int n mod 2 ^ 32 < 2 ^ 31 then int n mod 2 ^ 32 else int n mod 2 ^ 32 - 2 ^ 32)"

subsection \<open>The two data phases in the words of the specification\<close>

text \<open>
  The \<open>BLDR\<close> data phase as the specification words it: for every block descriptor, in
  the order of the enumeration, the block is read into a buffer of exactly the block's
  length and that buffer is streamed, one streamed write per block. This definition
  walks the list of descriptors; it is what the index loop \<open>for_blocks\<close> of the source is
  compared with. Each read happens in the world the previous one left.
\<close>

fun blocks_in_order ::
  "('w, 'i, 'b, 's::len) sys \<Rightarrow> s32 \<Rightarrow> 'b list \<Rightarrow> 'w \<Rightarrow> ('i, 'b) event list"
where
  "blocks_in_order sys fd [] w = []"
| "blocks_in_order sys fd (block # rest) w =
     (case bootloader_read_block sys fd block w of
        (filled, w1) \<Rightarrow>
          Bootloader_Read_Block fd block #
          Usb_Transfer_Read_Buffer
            (map filled [0..<unat (bootloader_get_block_size sys block)])
            (unat (bootloader_get_block_size sys block)) #
          blocks_in_order sys fd rest w1)"

text \<open>
  Modelled from the spec: \<open>usb_transfer_read_fd\<close> and the file system behind \<open>open\<close>
  (\<open>usbtransfer.hpp\<close> and the platform are not part of this file). The specification
  says of \<open>PULL\<close> that it "streams the file's full contents over the transport using a
  read-until-EOF data phase", and of a path that names no file that \<open>open\<close> fails.
  \<open>contents w path\<close> is the readable file that \<open>path\<close> names in the world \<open>w\<close>, if
  there is one. A system keeps the contract when \<open>open\<close> on a path that names no
  readable file fails the POSIX way (it returns \<open>-1\<close>), and \<open>open\<close> on a readable file
  returns a non-negative descriptor from which \<open>usb_transfer_read_fd\<close>, called in the
  world that \<open>open\<close> left, puts exactly the bytes of the file on the wire.
\<close>

definition file_stream_contract ::
  "('w, 'i, 'b, 's::len) sys \<Rightarrow> ('w \<Rightarrow> string \<Rightarrow> string option) \<Rightarrow> bool"
where
  "file_stream_contract sys contents =
     (\<forall>path w.
        (case contents w path of
           None \<Rightarrow> fst (fst (open_rdonly sys path w)) = - 1
         | Some file \<Rightarrow>
             0 \<le> sint (fst (fst (open_rdonly sys path w))) \<and>
             fst (usb_transfer_read_fd sys (fst (fst (open_rdonly sys path w)))
                    (snd (open_rdonly sys path w))) = file))"

subsection \<open>Small devices to run the loop on\<close>

text \<open>
  \<open>device\<close>: the world is the list of paths that exist, every file is empty. \<open>open\<close>
  follows POSIX: descriptor 3 for a path that exists, otherwise \<open>-1\<close> with
  \<open>errno = ENOENT\<close>. The bootloader image has \<open>n\<close> blocks, block \<open>i\<close> is \<open>i + 1\<close> bytes
  long. \<open>frame\<close> pads a payload with zero bytes to the \<open>0xfff8\<close> bytes of the request
  frame.
\<close>

definition ENOENT :: int where
  "ENOENT = 2"

definition c_str :: "string \<Rightarrow> string" where
  "c_str buf = takeWhile (\<lambda>c. c \<noteq> CHR 0x00) buf"

definition frame :: "s32 \<Rightarrow> string \<Rightarrow> usb_shell_request" where
  "frame c s = \<lparr>cmd = c, data = s @ replicate (0xfff8 - length s) (CHR 0x00)\<rparr>"

definition device :: "s32 \<Rightarrow> s32 \<Rightarrow> 's::len word \<Rightarrow> (string list, string, nat, 's) sys" where
  "device info_status spawn_pid n =
    \<lparr>get_device_info = (\<lambda>w. ((info_status, ''ILCE''), w)),
     popen2 = (\<lambda>args want_stdin w. ((spawn_pid, 5, 6), w)),
     open_rdonly = (\<lambda>path w. (if c_str path \<in> set w then (3, 0) else (- 1, ENOENT), w)),
     close_fd = (\<lambda>fd w. w),
     usb_transfer_socket = (\<lambda>fd_in fd_out w. w),
     usb_transfer_read_fd = (\<lambda>fd w. ([], w)),
     BOOTLOADER_DEV = ''/dev/boot'',
     bootloader_get_num_blocks = (\<lambda>w. (n, w)),
     bootloader_get_blocks = (\<lambda>fd w. (\<lambda>i. i, w)),
     bootloader_get_block_size = (\<lambda>b. of_nat (b + 1)),
     bootloader_read_block = (\<lambda>fd b w. (\<lambda>j. CHR ''x'', w))\<rparr>"

text \<open>
  \<open>image_device\<close>: as \<open>device\<close>, with an image whose blocks differ: the image is the
  text \<open>abc...\<close>, block \<open>0\<close> holds \<open>a\<close>, block \<open>1\<close> holds \<open>bc\<close>, and every read of a
  block is recorded in the world.
\<close>

definition image_device :: "'s::len word \<Rightarrow> (string list, string, nat, 's) sys" where
  "image_device n =
     (device 0 7 n)
       \<lparr>bootloader_read_block :=
          (\<lambda>fd b w.
             (\<lambda>j. if b + j = 0 then CHR ''a'' else if b + j = 1 then CHR ''b'' else CHR ''c'',
              w @ [''read'']))\<rparr>"

text \<open>
  \<open>disk\<close>: a file system with contents. The world is the list of (path, contents) with
  what descriptor 3 refers to, if it is open. \<open>open\<close> follows POSIX as before;
  \<open>usb_transfer_read_fd\<close> streams what the descriptor refers to and releases it.
  \<open>disk_contents\<close> is the file a path names.
\<close>

definition disk :: "((string \<times> string) list \<times> string option, string, nat, 32) sys" where
  "disk =
    \<lparr>get_device_info = (\<lambda>w. ((0, ''ILCE''), w)),
     popen2 = (\<lambda>args want_stdin w. ((7, 5, 6), w)),
     open_rdonly =
       (\<lambda>path w. case map_of (fst w) (c_str path) of
                    None \<Rightarrow> ((- 1, ENOENT), w)
                  | Some file \<Rightarrow> ((3, 0), (fst w, Some file))),
     close_fd = (\<lambda>fd w. (fst w, None)),
     usb_transfer_socket = (\<lambda>fd_in fd_out w. w),
     usb_transfer_read_fd =
       (\<lambda>fd w. case snd w of
                  None \<Rightarrow> ([], w)
                | Some file \<Rightarrow> (if fd = 3 then (file, (fst w, None)) else ([], w))),
     BOOTLOADER_DEV = ''/dev/boot'',
     bootloader_get_num_blocks = (\<lambda>w. (0, w)),
     bootloader_get_blocks = (\<lambda>fd w. (\<lambda>i. i, w)),
     bootloader_get_block_size = (\<lambda>b. 0),
     bootloader_read_block = (\<lambda>fd b w. (\<lambda>j. CHR ''x'', w))\<rparr>"

definition disk_contents :: "(string \<times> string) list \<times> string option \<Rightarrow> string \<Rightarrow> string option" where
  "disk_contents w path = map_of (fst w) (c_str path)"

section \<open>Properties\<close>

subsection \<open>Command words and traces\<close>

lemmas CMD_defs = CMD_TEST_def CMD_INFO_def CMD_SHEL_def CMD_EXEC_def CMD_PULL_def
  CMD_BLDR_def CMD_EXIT_def

lemma CMD_values:
  "CMD_TEST = 0x54534554" "CMD_INFO = 0x4F464E49" "CMD_SHEL = 0x4C454853"
  "CMD_EXEC = 0x43455845" "CMD_PULL = 0x4C4C5550" "CMD_BLDR = 0x52444C42"
  "CMD_EXIT = 0x54495845"
  by (simp_all add: CMD_defs int_of_chars_def)

lemma requests_read_append:
  "requests_read (xs @ ys) = requests_read xs @ requests_read ys"
  by (induction xs rule: requests_read.induct) simp_all

lemma responses_written_append:
  "responses_written (xs @ ys) = responses_written xs @ responses_written ys"
  by (induction xs rule: responses_written.induct) simp_all

lemma buffers_streamed_append:
  "buffers_streamed (xs @ ys) = buffers_streamed xs @ buffers_streamed ys"
  by (induction xs rule: buffers_streamed.induct) simp_all

lemma handles_used_append:
  "handles_used (xs @ ys) = handles_used xs @ handles_used ys"
  by (induction xs rule: handles_used.induct) simp_all

lemma phase_run_append:
  "phase_run p (xs @ ys) = (case phase_run p xs of None \<Rightarrow> None | Some p' \<Rightarrow> phase_run p' ys)"
  by (induction xs arbitrary: p) (simp_all split: option.splits)

text \<open>What the acceptor refuses: a second request before the response, a second
  response, data-phase traffic before the response, a request left unanswered, traffic
  with no request.\<close>

lemma lock_step_refuses:
  "\<not> lock_step [Read_Request q, Read_Request q']"
  "\<not> lock_step [Read_Request q, Write_Response r, Write_Response r']"
  "\<not> lock_step [Read_Request q, Read_Null, Write_Response r]"
  "\<not> lock_step [Read_Request q]"
  "\<not> lock_step [Write_Response r]"
  "\<not> lock_step [Usb_Transfer_Read_Fd fd bytes]"
  by (simp_all add: lock_step_def)

subsection \<open>The block loop\<close>

lemma for_blocks_unfold:
  "i < num_blocks \<Longrightarrow>
   for_blocks sys fd blocks i num_blocks w =
     (case bootloader_read_block sys fd (blocks ! i) w of
        (filled, w1) \<Rightarrow>
          (case for_blocks sys fd blocks (Suc i) num_blocks w1 of
             (w2, evs) \<Rightarrow>
               (w2, Bootloader_Read_Block fd (blocks ! i) #
                    Usb_Transfer_Read_Buffer
                      (map filled [0..<unat (bootloader_get_block_size sys (blocks ! i))])
                      (unat (bootloader_get_block_size sys (blocks ! i))) # evs)))"
  by (subst for_blocks.simps) (simp add: Let_def split: prod.splits)

lemma for_blocks_done:
  "\<not> i < num_blocks \<Longrightarrow> for_blocks sys fd blocks i num_blocks w = (w, [])"
  by (subst for_blocks.simps) simp

lemma for_blocks_phase:
  "phase_run Answered (snd (for_blocks sys fd blocks i num_blocks w)) = Some Answered"
proof (induction sys fd blocks i num_blocks w rule: for_blocks.induct)
  case (1 sys fd blocks i num_blocks w)
  show ?case
  proof (cases "i < num_blocks")
    case True
    obtain filled w1 where rb: "bootloader_read_block sys fd (blocks ! i) w = (filled, w1)"
      by (cases "bootloader_read_block sys fd (blocks ! i) w")
    obtain w2 evs where fb: "for_blocks sys fd blocks (Suc i) num_blocks w1 = (w2, evs)"
      by (cases "for_blocks sys fd blocks (Suc i) num_blocks w1")
    from "1.IH" [OF True refl rb [symmetric] refl refl]
    have "phase_run Answered evs = Some Answered" by (simp add: fb)
    then show ?thesis
      by (simp add: for_blocks_unfold [OF True] rb fb)
  next
    case False
    then show ?thesis by (simp add: for_blocks_done)
  qed
qed

lemma for_blocks_no_frames:
  "requests_read (snd (for_blocks sys fd blocks i num_blocks w)) = [] \<and>
   responses_written (snd (for_blocks sys fd blocks i num_blocks w)) = []"
proof (induction sys fd blocks i num_blocks w rule: for_blocks.induct)
  case (1 sys fd blocks i num_blocks w)
  show ?case
  proof (cases "i < num_blocks")
    case True
    obtain filled w1 where rb: "bootloader_read_block sys fd (blocks ! i) w = (filled, w1)"
      by (cases "bootloader_read_block sys fd (blocks ! i) w")
    obtain w2 evs where fb: "for_blocks sys fd blocks (Suc i) num_blocks w1 = (w2, evs)"
      by (cases "for_blocks sys fd blocks (Suc i) num_blocks w1")
    from "1.IH" [OF True refl rb [symmetric] refl refl]
    have "requests_read evs = [] \<and> responses_written evs = []" by (simp add: fb)
    then show ?thesis
      by (simp add: for_blocks_unfold [OF True] rb fb)
  next
    case False
    then show ?thesis by (simp add: for_blocks_done)
  qed
qed

lemma for_blocks_handles:
  "handles_used (snd (for_blocks sys fd blocks i num_blocks w)) = replicate (num_blocks - i) fd"
proof (induction sys fd blocks i num_blocks w rule: for_blocks.induct)
  case (1 sys fd blocks i num_blocks w)
  show ?case
  proof (cases "i < num_blocks")
    case True
    obtain filled w1 where rb: "bootloader_read_block sys fd (blocks ! i) w = (filled, w1)"
      by (cases "bootloader_read_block sys fd (blocks ! i) w")
    obtain w2 evs where fb: "for_blocks sys fd blocks (Suc i) num_blocks w1 = (w2, evs)"
      by (cases "for_blocks sys fd blocks (Suc i) num_blocks w1")
    from "1.IH" [OF True refl rb [symmetric] refl refl]
    have "handles_used evs = replicate (num_blocks - Suc i) fd" by (simp add: fb)
    moreover from True have "num_blocks - i = Suc (num_blocks - Suc i)" by arith
    ultimately show ?thesis
      by (simp add: for_blocks_unfold [OF True] rb fb)
  next
    case False
    then show ?thesis by (simp add: for_blocks_done)
  qed
qed

lemma for_blocks_lengths:
  "map snd (buffers_streamed (snd (for_blocks sys fd blocks i num_blocks w))) =
     map (\<lambda>k. unat (bootloader_get_block_size sys (blocks ! k))) [i..<num_blocks] \<and>
   list_all (\<lambda>(buf, l). length buf = l) (buffers_streamed (snd (for_blocks sys fd blocks i num_blocks w)))"
proof (induction sys fd blocks i num_blocks w rule: for_blocks.induct)
  case (1 sys fd blocks i num_blocks w)
  show ?case
  proof (cases "i < num_blocks")
    case True
    obtain filled w1 where rb: "bootloader_read_block sys fd (blocks ! i) w = (filled, w1)"
      by (cases "bootloader_read_block sys fd (blocks ! i) w")
    obtain w2 evs where fb: "for_blocks sys fd blocks (Suc i) num_blocks w1 = (w2, evs)"
      by (cases "for_blocks sys fd blocks (Suc i) num_blocks w1")
    from "1.IH" [OF True refl rb [symmetric] refl refl]
    have "map snd (buffers_streamed evs) =
            map (\<lambda>k. unat (bootloader_get_block_size sys (blocks ! k))) [Suc i..<num_blocks] \<and>
          list_all (\<lambda>(buf, l). length buf = l) (buffers_streamed evs)"
      by (simp add: fb)
    then show ?thesis
      using True by (simp add: for_blocks_unfold [OF True] rb fb upt_conv_Cons)
  next
    case False
    then show ?thesis by (simp add: for_blocks_done)
  qed
qed


lemma for_blocks_in_order:
  "num_blocks = length blocks \<Longrightarrow>
   snd (for_blocks sys fd blocks i num_blocks w) = blocks_in_order sys fd (drop i blocks) w"
proof (induction sys fd blocks i num_blocks w rule: for_blocks.induct)
  case (1 sys fd blocks i num_blocks w)
  show ?case
  proof (cases "i < num_blocks")
    case True
    obtain filled w1 where rb: "bootloader_read_block sys fd (blocks ! i) w = (filled, w1)"
      by (cases "bootloader_read_block sys fd (blocks ! i) w")
    obtain w2 evs where fb: "for_blocks sys fd blocks (Suc i) num_blocks w1 = (w2, evs)"
      by (cases "for_blocks sys fd blocks (Suc i) num_blocks w1")
    from "1.IH" [OF True refl rb [symmetric] refl refl "1.prems"]
    have rest: "evs = blocks_in_order sys fd (drop (Suc i) blocks) w1"
      by (simp add: fb)
    from True "1.prems" have "drop i blocks = blocks ! i # drop (Suc i) blocks"
      by (simp add: Cons_nth_drop_Suc)
    with rest show ?thesis
      by (simp add: for_blocks_unfold [OF True] rb fb)
  next
    case False
    with "1.prems" show ?thesis by (simp add: for_blocks_done)
  qed
qed

subsection \<open>The body, command by command\<close>

lemma body_TEST:
  "cmd q = CMD_TEST \<Longrightarrow> loop_body sys q w = (False, w, [Write_Response \<lparr>result = 0\<rparr>])"
  by (simp add: loop_body_def USB_RESULT_SUCCESS_def)

lemma body_INFO:
  "cmd q = CMD_INFO \<Longrightarrow> get_device_info sys w = ((err, info), w1) \<Longrightarrow>
   loop_body sys q w =
     (False, w1, Get_Device_Info err # Write_Response \<lparr>result = err\<rparr> #
                 (if err = 0 then [Read_Null, Write_Info info] else []))"
  by (simp add: loop_body_def USB_RESULT_SUCCESS_def CMD_values)

lemma body_SHEL:
  "cmd q = CMD_SHEL \<Longrightarrow> popen2 sys [''sh'', ''-i''] True w = ((pid, fd_stdin, fd_stdout), w1) \<Longrightarrow>
   loop_body sys q w =
     (if 0 \<le> sint pid
      then (False, usb_transfer_socket sys fd_stdin fd_stdout w1,
            [Popen2 [''sh'', ''-i''] True pid, Write_Response \<lparr>result = 0\<rparr>,
             Usb_Transfer_Socket fd_stdin fd_stdout])
      else (False, w1, [Popen2 [''sh'', ''-i''] True pid, Write_Response \<lparr>result = pid\<rparr>]))"
  by (simp add: loop_body_def USB_RESULT_SUCCESS_def CMD_values)

lemma body_EXEC:
  "cmd q = CMD_EXEC \<Longrightarrow>
   popen2 sys [''sh'', ''-c'', data q] False w = ((pid, fd_stdin, fd_stdout), w1) \<Longrightarrow>
   loop_body sys q w =
     (if 0 \<le> sint pid
      then (False, usb_transfer_socket sys 0 fd_stdout w1,
            [Popen2 [''sh'', ''-c'', data q] False pid, Write_Response \<lparr>result = 0\<rparr>,
             Usb_Transfer_Socket 0 fd_stdout])
      else (False, w1, [Popen2 [''sh'', ''-c'', data q] False pid, Write_Response \<lparr>result = pid\<rparr>]))"
  by (simp add: loop_body_def USB_RESULT_SUCCESS_def CMD_values)

lemma body_PULL:
  "cmd q = CMD_PULL \<Longrightarrow> open_rdonly sys (data q) w = ((fd, errno), w1) \<Longrightarrow>
   loop_body sys q w =
     (if 0 \<le> sint fd
      then (False, snd (usb_transfer_read_fd sys fd w1),
            [Open_Rdonly (data q) fd, Write_Response \<lparr>result = 0\<rparr>,
             Usb_Transfer_Read_Fd fd (fst (usb_transfer_read_fd sys fd w1))])
      else (False, w1, [Open_Rdonly (data q) fd, Write_Response \<lparr>result = fd\<rparr>]))"
  by (simp add: loop_body_def USB_RESULT_SUCCESS_def CMD_values split: prod.splits)

lemma body_BLDR:
  "cmd q = CMD_BLDR \<Longrightarrow> open_rdonly sys (BOOTLOADER_DEV sys) w = ((fd, errno), w1) \<Longrightarrow>
   bootloader_get_num_blocks sys w1 = (n, w2) \<Longrightarrow>
   bootloader_get_blocks sys fd w2 = (stored, w3) \<Longrightarrow>
   loop_body sys q w =
     (False,
      close_fd sys fd (fst (for_blocks sys fd (map stored [0..<unat n]) 0 (unat n) w3)),
      [Open_Rdonly (BOOTLOADER_DEV sys) fd, Bootloader_Get_Num_Blocks (unat n),
       Write_Response \<lparr>result = ucast n\<rparr>, Bootloader_Get_Blocks fd] @
      snd (for_blocks sys fd (map stored [0..<unat n]) 0 (unat n) w3) @ [Close_Fd fd])"
  by (simp add: loop_body_def CMD_values split: prod.splits)

lemma body_EXIT:
  "cmd q = CMD_EXIT \<Longrightarrow> loop_body sys q w = (True, w, [Write_Response \<lparr>result = 0\<rparr>])"
  by (simp add: loop_body_def USB_RESULT_SUCCESS_def CMD_values)

lemma body_unknown:
  "cmd q \<notin> {CMD_TEST, CMD_INFO, CMD_SHEL, CMD_EXEC, CMD_PULL, CMD_BLDR, CMD_EXIT} \<Longrightarrow>
   loop_body sys q w = (False, w, [Write_Response \<lparr>result = - 1\<rparr>])"
  by (simp add: loop_body_def USB_RESULT_ERROR_def)

lemma body_break: "fst (loop_body sys q w) = (cmd q = CMD_EXIT)"
  by (simp add: loop_body_def CMD_values Let_def split: prod.splits)

lemma body_frames:
  "phase_run Pending (snd (snd (loop_body sys q w))) = Some Answered \<and>
   requests_read (snd (snd (loop_body sys q w))) = [] \<and>
   length (responses_written (snd (snd (loop_body sys q w)))) = 1"
proof -
  consider (TEST) "cmd q = CMD_TEST" | (INFO) "cmd q = CMD_INFO" | (SHEL) "cmd q = CMD_SHEL"
    | (EXEC) "cmd q = CMD_EXEC" | (PULL) "cmd q = CMD_PULL" | (BLDR) "cmd q = CMD_BLDR"
    | (EXIT) "cmd q = CMD_EXIT"
    | (unknown) "cmd q \<notin> {CMD_TEST, CMD_INFO, CMD_SHEL, CMD_EXEC, CMD_PULL, CMD_BLDR, CMD_EXIT}"
    by blast
  then show ?thesis
  proof cases
    case TEST
    then show ?thesis by (simp add: body_TEST)
  next
    case INFO
    obtain err info w1 where "get_device_info sys w = ((err, info), w1)"
      by (metis surj_pair)
    from body_INFO [OF INFO this] show ?thesis by simp
  next
    case SHEL
    obtain pid fd_stdin fd_stdout w1
      where "popen2 sys [''sh'', ''-i''] True w = ((pid, fd_stdin, fd_stdout), w1)"
      by (metis surj_pair)
    from body_SHEL [OF SHEL this] show ?thesis by simp
  next
    case EXEC
    obtain pid fd_stdin fd_stdout w1
      where "popen2 sys [''sh'', ''-c'', data q] False w = ((pid, fd_stdin, fd_stdout), w1)"
      by (metis surj_pair)
    from body_EXEC [OF EXEC this] show ?thesis by simp
  next
    case PULL
    obtain fd errno w1 where "open_rdonly sys (data q) w = ((fd, errno), w1)"
      by (metis surj_pair)
    from body_PULL [OF PULL this] show ?thesis by simp
  next
    case BLDR
    obtain fd errno w1 where op: "open_rdonly sys (BOOTLOADER_DEV sys) w = ((fd, errno), w1)"
      by (metis surj_pair)
    obtain n w2 where nb: "bootloader_get_num_blocks sys w1 = (n, w2)"
      by (metis surj_pair)
    obtain stored w3 where gb: "bootloader_get_blocks sys fd w2 = (stored, w3)"
      by (metis surj_pair)
    from body_BLDR [OF BLDR op nb gb] show ?thesis
      by (simp add: phase_run_append for_blocks_phase for_blocks_no_frames
          requests_read_append responses_written_append)
  next
    case EXIT
    then show ?thesis by (simp add: body_EXIT)
  next
    case unknown
    then show ?thesis by (simp add: body_unknown)
  qed
qed

subsection \<open>The loop as a whole\<close>

lemma loop_step:
  "cmd q \<noteq> CMD_EXIT \<Longrightarrow>
   usbshell_loop sys (q # pending) w =
     (loop_outcome sys pending (fst (snd (loop_body sys q w))),
      loop_unread sys pending (fst (snd (loop_body sys q w))),
      loop_world sys pending (fst (snd (loop_body sys q w))),
      Read_Request q # snd (snd (loop_body sys q w)) @
        loop_trace sys pending (fst (snd (loop_body sys q w))))"
proof -
  assume q: "cmd q \<noteq> CMD_EXIT"
  obtain b w1 evs where body: "loop_body sys q w = (b, w1, evs)"
    by (metis surj_pair)
  from body_break [of sys q w] q body have "\<not> b" by simp
  then show ?thesis
    by (simp add: usbshell_loop.simps body loop_outcome_def loop_unread_def loop_world_def
        loop_trace_def split: prod.splits)
qed

lemma loop_trace_step:
  "cmd q \<noteq> CMD_EXIT \<Longrightarrow> loop_body sys q w = (b, w1, evs) \<Longrightarrow>
   loop_trace sys (q # pending) w = Read_Request q # evs @ loop_trace sys pending w1"
  using loop_step [of q sys pending w] by (simp add: loop_trace_def)

lemma loop_exit:
  "cmd q = CMD_EXIT \<Longrightarrow>
   usbshell_loop sys (q # pending) w =
     (Exited, pending, w, [Read_Request q, Write_Response \<lparr>result = 0\<rparr>])"
  by (simp add: usbshell_loop.simps body_EXIT)

lemma loop_append:
  "\<forall>p \<in> set before. cmd p \<noteq> CMD_EXIT \<Longrightarrow>
   usbshell_loop sys (before @ rest) w =
     (loop_outcome sys rest (loop_world sys before w),
      loop_unread sys rest (loop_world sys before w),
      loop_world sys rest (loop_world sys before w),
      loop_trace sys before w @ loop_trace sys rest (loop_world sys before w))"
proof (induction before arbitrary: w)
  case Nil
  show ?case
    by (simp add: usbshell_loop.simps loop_outcome_def loop_unread_def loop_world_def
        loop_trace_def)
next
  case (Cons q before)
  from Cons.prems have q: "cmd q \<noteq> CMD_EXIT" and rest: "\<forall>p \<in> set before. cmd p \<noteq> CMD_EXIT"
    by simp_all
  let ?w1 = "fst (snd (loop_body sys q w))"
  have IH: "usbshell_loop sys (before @ rest) ?w1 =
     (loop_outcome sys rest (loop_world sys before ?w1),
      loop_unread sys rest (loop_world sys before ?w1),
      loop_world sys rest (loop_world sys before ?w1),
      loop_trace sys before ?w1 @ loop_trace sys rest (loop_world sys before ?w1))"
    by (rule Cons.IH [OF rest])
  have a: "usbshell_loop sys (q # (before @ rest)) w =
     (loop_outcome sys (before @ rest) ?w1, loop_unread sys (before @ rest) ?w1,
      loop_world sys (before @ rest) ?w1,
      Read_Request q # snd (snd (loop_body sys q w)) @ loop_trace sys (before @ rest) ?w1)"
    by (rule loop_step [OF q])
  have b: "usbshell_loop sys (q # before) w =
     (loop_outcome sys before ?w1, loop_unread sys before ?w1,
      loop_world sys before ?w1,
      Read_Request q # snd (snd (loop_body sys q w)) @ loop_trace sys before ?w1)"
    by (rule loop_step [OF q])
  have w: "loop_world sys (q # before) w = loop_world sys before ?w1"
    and t: "loop_trace sys (q # before) w =
              Read_Request q # snd (snd (loop_body sys q w)) @ loop_trace sys before ?w1"
    using b by (simp_all add: loop_world_def loop_trace_def)
  have c: "loop_outcome sys (before @ rest) ?w1 = loop_outcome sys rest (loop_world sys before ?w1)"
    "loop_unread sys (before @ rest) ?w1 = loop_unread sys rest (loop_world sys before ?w1)"
    "loop_world sys (before @ rest) ?w1 = loop_world sys rest (loop_world sys before ?w1)"
    "loop_trace sys (before @ rest) ?w1 =
       loop_trace sys before ?w1 @ loop_trace sys rest (loop_world sys before ?w1)"
    using IH by (simp_all add: loop_outcome_def loop_unread_def loop_world_def loop_trace_def)
  show ?case
    by (simp add: a c w t)
qed

lemma loop_phase:
  "p \<noteq> Pending \<Longrightarrow>
   phase_run p (loop_trace sys frames w) = Some (if frames = [] then p else Answered)"
proof (induction frames arbitrary: w p)
  case Nil
  show ?case by (simp add: loop_trace_def usbshell_loop.simps)
next
  case (Cons q frames)
  show ?case
  proof (cases "cmd q = CMD_EXIT")
    case True
    with Cons.prems show ?thesis by (simp add: loop_trace_def loop_exit)
  next
    case False
    obtain b w1 evs where body: "loop_body sys q w = (b, w1, evs)"
      by (metis surj_pair)
    from body_frames [of sys q w] have evs: "phase_run Pending evs = Some Answered"
      by (simp add: body)
    have "phase_run Answered (loop_trace sys frames w1) = Some Answered"
      using Cons.IH [of Answered w1] by simp
    with evs Cons.prems show ?thesis
      by (simp add: loop_trace_step [OF False body] phase_run_append)
  qed
qed

lemma loop_frames:
  "requests_read (loop_trace sys frames w) @ loop_unread sys frames w = frames \<and>
   length (responses_written (loop_trace sys frames w)) =
     length (requests_read (loop_trace sys frames w))"
proof (induction frames arbitrary: w)
  case Nil
  show ?case by (simp add: loop_trace_def loop_unread_def usbshell_loop.simps)
next
  case (Cons q frames)
  show ?case
  proof (cases "cmd q = CMD_EXIT")
    case True
    then show ?thesis by (simp add: loop_trace_def loop_unread_def loop_exit)
  next
    case False
    obtain b w1 evs where body: "loop_body sys q w = (b, w1, evs)"
      by (metis surj_pair)
    from body_frames [of sys q w]
    have evs: "requests_read evs = []" "length (responses_written evs) = 1"
      by (simp_all add: body)
    have u: "loop_unread sys (q # frames) w = loop_unread sys frames w1"
      using loop_step [OF False, of sys frames w] by (simp add: loop_unread_def body)
    from Cons.IH [of w1] evs show ?thesis
      by (simp add: loop_trace_step [OF False body] u requests_read_append
          responses_written_append)
  qed
qed

lemma loop_trace_hd:
  "\<exists>evs. loop_trace sys (q # pending) w = Read_Request q # evs"
proof (cases "cmd q = CMD_EXIT")
  case True
  then show ?thesis by (simp add: loop_trace_def loop_exit)
next
  case False
  from loop_step [OF False, of sys pending w] show ?thesis by (simp add: loop_trace_def)
qed

subsection \<open>Storing a \<open>size_t\<close> in an \<open>int\<close>\<close>

lemma signed_low32:
  fixes k :: int
  shows "signed_take_bit 31 k =
    (if k mod 2 ^ 32 < 2 ^ 31 then k mod 2 ^ 32 else k mod 2 ^ 32 - 2 ^ 32)"
proof -
  define m where "m = k mod 4294967296"
  have m: "0 \<le> m" "m < 4294967296"
    by (simp_all add: m_def)
  have shift: "signed_take_bit 31 k = (m + 2147483648) mod 4294967296 - 2147483648"
    by (simp add: signed_take_bit_eq_take_bit_shift take_bit_eq_mod m_def mod_add_left_eq)
  show ?thesis
  proof (cases "m < 2147483648")
    case True
    with m have "(m + 2147483648) mod 4294967296 = m + 2147483648"
      by (intro mod_pos_pos_trivial) linarith+
    with True shift show ?thesis by (simp add: m_def)
  next
    case False
    have "(m + 2147483648) mod 4294967296 = (m + 2147483648 - 4294967296) mod 4294967296"
      by (simp only: minus_mod_self2)
    also from False m have "\<dots> = m + 2147483648 - 4294967296"
      by (intro mod_pos_pos_trivial) linarith+
    finally show ?thesis using False shift by (simp add: m_def)
  qed
qed

lemma sint_low32: "sint (ucast (n :: 's::len word) :: s32) = int_of_low32 (unat n)"
proof -
  have "sint (ucast n :: s32) = signed_take_bit 31 (int (unat n))"
    by (simp add: signed_ucast_eq)
  then show ?thesis
    unfolding int_of_low32_def by (simp only: signed_low32)
qed

lemma int_of_low32_negative:
  assumes "2 ^ 31 \<le> n mod 2 ^ 32"
  shows "int_of_low32 n < 0"
proof -
  have "int (n mod 2 ^ 32) = int n mod 2 ^ 32"
    by (simp add: zmod_int)
  moreover from assms have "(2 ^ 31 :: int) \<le> int (n mod 2 ^ 32)"
    by (metis of_nat_le_iff of_nat_numeral of_nat_power)
  ultimately have "(2 ^ 31 :: int) \<le> int n mod 2 ^ 32"
    by simp
  then show ?thesis
    unfolding int_of_low32_def using pos_mod_bound [of "2 ^ 32 :: int" "int n"] by auto
qed

lemma int_of_low32_exact:
  "n < 2 ^ 31 \<Longrightarrow> int_of_low32 n = int n"
  by (simp add: int_of_low32_def)

subsection \<open>The \<open>BLDR\<close> exchange\<close>

lemma bldr_trace:
  assumes "cmd q = CMD_BLDR"
    and "open_rdonly sys (BOOTLOADER_DEV sys) w = ((fd, errno), w1)"
    and "bootloader_get_num_blocks sys w1 = (n, w2)"
    and "bootloader_get_blocks sys fd w2 = (stored, w3)"
  shows "loop_trace sys [q] w =
     [Read_Request q, Open_Rdonly (BOOTLOADER_DEV sys) fd, Bootloader_Get_Num_Blocks (unat n),
      Write_Response \<lparr>result = ucast n\<rparr>, Bootloader_Get_Blocks fd] @
     snd (for_blocks sys fd (map stored [0..<unat n]) 0 (unat n) w3) @ [Close_Fd fd]"
proof -
  from assms(1) have "cmd q \<noteq> CMD_EXIT" by (simp add: CMD_values)
  from loop_trace_step [OF this body_BLDR [OF assms], of "[]"] show ?thesis
    by (simp add: loop_trace_def usbshell_loop.simps)
qed

lemma bldr_response:
  assumes "cmd q = CMD_BLDR"
    and "open_rdonly sys (BOOTLOADER_DEV sys) w = ((fd, errno), w1)"
    and "bootloader_get_num_blocks sys w1 = (n, w2)"
  shows "responses_written (loop_trace sys [q] w) = [\<lparr>result = ucast n\<rparr>]"
proof -
  obtain stored w3 where "bootloader_get_blocks sys fd w2 = (stored, w3)"
    by (metis surj_pair)
  from bldr_trace [OF assms this] show ?thesis
    by (simp add: responses_written_append for_blocks_no_frames)
qed

lemma bldr_buffers:
  assumes "cmd q = CMD_BLDR"
    and "open_rdonly sys (BOOTLOADER_DEV sys) w = ((fd, errno), w1)"
    and "bootloader_get_num_blocks sys w1 = (n, w2)"
    and "bootloader_get_blocks sys fd w2 = (stored, w3)"
  shows "map snd (buffers_streamed (loop_trace sys [q] w)) =
           map (\<lambda>i. unat (bootloader_get_block_size sys (stored i))) [0..<unat n]"
    and "list_all (\<lambda>(buf, l). length buf = l) (buffers_streamed (loop_trace sys [q] w))"
proof -
  let ?evs = "snd (for_blocks sys fd (map stored [0..<unat n]) 0 (unat n) w3)"
  have b: "buffers_streamed (loop_trace sys [q] w) = buffers_streamed ?evs"
    by (simp add: bldr_trace [OF assms] buffers_streamed_append)
  have "map (\<lambda>k. unat (bootloader_get_block_size sys (map stored [0..<unat n] ! k))) [0..<unat n] =
        map (\<lambda>i. unat (bootloader_get_block_size sys (stored i))) [0..<unat n]"
    by (rule map_cong) simp_all
  with for_blocks_lengths [of sys fd "map stored [0..<unat n]" 0 "unat n" w3] b
  show "map snd (buffers_streamed (loop_trace sys [q] w)) =
           map (\<lambda>i. unat (bootloader_get_block_size sys (stored i))) [0..<unat n]"
    and "list_all (\<lambda>(buf, l). length buf = l) (buffers_streamed (loop_trace sys [q] w))"
    by simp_all
qed

lemma bldr_handles:
  assumes "cmd q = CMD_BLDR"
    and "open_rdonly sys (BOOTLOADER_DEV sys) w = ((fd, errno), w1)"
    and "bootloader_get_num_blocks sys w1 = (n, w2)"
  shows "handles_used (loop_trace sys [q] w) = replicate (unat n + 2) fd"
proof -
  obtain stored w3 where "bootloader_get_blocks sys fd w2 = (stored, w3)"
    by (metis surj_pair)
  from bldr_trace [OF assms this] show ?thesis
    by (simp add: handles_used_append for_blocks_handles replicate_append_same)
qed

lemma bldr_in_order:
  assumes "cmd q = CMD_BLDR"
    and "open_rdonly sys (BOOTLOADER_DEV sys) w = ((fd, errno), w1)"
    and "bootloader_get_num_blocks sys w1 = (n, w2)"
    and "bootloader_get_blocks sys fd w2 = (stored, w3)"
  shows "loop_trace sys [q] w =
     [Read_Request q, Open_Rdonly (BOOTLOADER_DEV sys) fd, Bootloader_Get_Num_Blocks (unat n),
      Write_Response \<lparr>result = ucast n\<rparr>, Bootloader_Get_Blocks fd] @
     blocks_in_order sys fd (map stored [0..<unat n]) w3 @ [Close_Fd fd]"
  using bldr_trace [OF assms]
    for_blocks_in_order [of "unat n" "map stored [0..<unat n]" sys fd 0 w3]
  by simp

subsection \<open>The \<open>PULL\<close> exchange\<close>

lemma pull_trace:
  assumes "cmd q = CMD_PULL" and "open_rdonly sys (data q) w = ((fd, errno), w1)"
  shows "loop_trace sys (q # pending) w =
       (if sint fd < 0
        then [Read_Request q, Open_Rdonly (data q) fd, Write_Response \<lparr>result = fd\<rparr>] @
             loop_trace sys pending w1
        else [Read_Request q, Open_Rdonly (data q) fd, Write_Response \<lparr>result = 0\<rparr>,
              Usb_Transfer_Read_Fd fd (fst (usb_transfer_read_fd sys fd w1))] @
             loop_trace sys pending (snd (usb_transfer_read_fd sys fd w1)))"
proof -
  from assms(1) have ne: "cmd q \<noteq> CMD_EXIT" by (simp add: CMD_values)
  show ?thesis
  proof (cases "0 \<le> sint fd")
    case True
    with body_PULL [OF assms]
    have "loop_body sys q w = (False, snd (usb_transfer_read_fd sys fd w1),
        [Open_Rdonly (data q) fd, Write_Response \<lparr>result = 0\<rparr>,
         Usb_Transfer_Read_Fd fd (fst (usb_transfer_read_fd sys fd w1))])"
      by simp
    from loop_trace_step [OF ne this] True show ?thesis by simp
  next
    case False
    with body_PULL [OF assms]
    have "loop_body sys q w =
        (False, w1, [Open_Rdonly (data q) fd, Write_Response \<lparr>result = fd\<rparr>])"
      by simp
    from loop_trace_step [OF ne this] False show ?thesis by simp
  qed
qed

lemma file_stream_contractD:
  assumes "file_stream_contract sys contents"
    and "open_rdonly sys path w = ((fd, errno), w1)"
  shows "contents w path = None \<Longrightarrow> fd = - 1"
    and "contents w path = Some file \<Longrightarrow>
           0 \<le> sint fd \<and> fst (usb_transfer_read_fd sys fd w1) = file"
proof -
  from assms(1) have inst: "case contents w path of
           None \<Rightarrow> fst (fst (open_rdonly sys path w)) = - 1
         | Some file \<Rightarrow>
             0 \<le> sint (fst (fst (open_rdonly sys path w))) \<and>
             fst (usb_transfer_read_fd sys (fst (fst (open_rdonly sys path w)))
                    (snd (open_rdonly sys path w))) = file"
    unfolding file_stream_contract_def by (elim allE)
  show "contents w path = None \<Longrightarrow> fd = - 1"
    using inst assms(2) by simp
  show "contents w path = Some file \<Longrightarrow>
           0 \<le> sint fd \<and> fst (usb_transfer_read_fd sys fd w1) = file"
    using inst assms(2) by simp
qed

subsection \<open>Running the small devices\<close>

lemmas device_run = device_def frame_def c_str_def ENOENT_def loop_trace_def usbshell_loop.simps
  loop_body_def CMD_values USB_RESULT_SUCCESS_def USB_RESULT_ERROR_def for_blocks_unfold
  for_blocks_done

subsection \<open>The commands\<close>

text \<open>
  Claim C9. A \<open>TEST\<close> request is answered with \<open>result = 0\<close> whatever its payload
  holds, and nothing follows the response: the next event of the trace is the read of
  the next request frame, in the world as it was.
\<close>

theorem test_always_succeeds:
  "loop_trace sys (\<lparr>cmd = CMD_TEST, data = payload\<rparr> # pending) w =
     Read_Request \<lparr>cmd = CMD_TEST, data = payload\<rparr> #
     Write_Response \<lparr>result = 0\<rparr> # loop_trace sys pending w"
proof -
  have "cmd \<lparr>cmd = CMD_TEST, data = payload\<rparr> \<noteq> CMD_EXIT"
    by (simp add: CMD_values)
  from loop_trace_step [OF this body_TEST] show ?thesis by simp
qed

text \<open>
  Claim C4. An \<open>INFO\<close> request: the response carries what \<open>get_device_info\<close> returned.
  When that is \<open>0\<close>, the zero-length read and the write of the info record follow the
  response, in this order; when it is not, the response is the last event of the
  exchange.
\<close>

theorem info_result_and_record:
  assumes "cmd q = CMD_INFO" and "get_device_info sys w = ((err, info), w1)"
  shows "loop_trace sys (q # pending) w =
     [Read_Request q, Get_Device_Info err, Write_Response \<lparr>result = err\<rparr>] @
     (if err = 0 then [Read_Null, Write_Info info] else []) @ loop_trace sys pending w1"
proof -
  from assms(1) have "cmd q \<noteq> CMD_EXIT" by (simp add: CMD_values)
  from loop_trace_step [OF this body_INFO [OF assms]] show ?thesis by simp
qed

theorem info_result_and_record_witness:
  "loop_trace (device 0 7 (2 :: 32 word)) [frame CMD_INFO ''''] [] =
     [Read_Request (frame CMD_INFO ''''), Get_Device_Info 0, Write_Response \<lparr>result = 0\<rparr>,
      Read_Null, Write_Info ''ILCE''] \<and>
   loop_trace (device (- 5) 7 (2 :: 32 word)) [frame CMD_INFO ''''] [] =
     [Read_Request (frame CMD_INFO ''''), Get_Device_Info (- 5), Write_Response \<lparr>result = - 5\<rparr>]"
  using info_result_and_record [of "frame CMD_INFO ''''" "device 0 7 (2 :: 32 word)" "[]" 0 "''ILCE''" "[]" "[]"]
    info_result_and_record [of "frame CMD_INFO ''''" "device (- 5) 7 (2 :: 32 word)" "[]" "- 5" "''ILCE''" "[]" "[]"]
  by (simp add: device_def frame_def loop_trace_def usbshell_loop.simps)

text \<open>
  Claim C7. A \<open>SHEL\<close> or \<open>EXEC\<close> request: when \<open>popen2\<close> returns a negative value, the
  response carries that value and \<open>usb_transfer_socket\<close> is not called; otherwise the
  response carries \<open>0\<close> and \<open>usb_transfer_socket\<close> runs on the descriptors of the
  child (\<open>EXEC\<close> passes \<open>0\<close> for the input side).
\<close>

theorem spawn_failure_skips_bridge:
  assumes "cmd q = CMD_SHEL \<or> cmd q = CMD_EXEC"
    and "args = (if cmd q = CMD_SHEL then [''sh'', ''-i''] else [''sh'', ''-c'', data q])"
    and "popen2 sys args (cmd q = CMD_SHEL) w = ((pid, fd_stdin, fd_stdout), w1)"
  shows "loop_trace sys (q # pending) w =
     (if sint pid < 0
      then [Read_Request q, Popen2 args (cmd q = CMD_SHEL) pid, Write_Response \<lparr>result = pid\<rparr>] @
           loop_trace sys pending w1
      else [Read_Request q, Popen2 args (cmd q = CMD_SHEL) pid, Write_Response \<lparr>result = 0\<rparr>,
            Usb_Transfer_Socket (if cmd q = CMD_SHEL then fd_stdin else 0) fd_stdout] @
           loop_trace sys pending
             (usb_transfer_socket sys (if cmd q = CMD_SHEL then fd_stdin else 0) fd_stdout w1))"
proof (cases "cmd q = CMD_SHEL")
  case True
  then have ne: "cmd q \<noteq> CMD_EXIT" by (simp add: CMD_values)
  from assms(2,3) True
  have sp: "popen2 sys [''sh'', ''-i''] True w = ((pid, fd_stdin, fd_stdout), w1)" by simp
  show ?thesis
  proof (cases "0 \<le> sint pid")
    case ok: True
    with body_SHEL [OF True sp]
    have "loop_body sys q w = (False, usb_transfer_socket sys fd_stdin fd_stdout w1,
            [Popen2 [''sh'', ''-i''] True pid, Write_Response \<lparr>result = 0\<rparr>,
             Usb_Transfer_Socket fd_stdin fd_stdout])" by simp
    from loop_trace_step [OF ne this] ok True assms(2) show ?thesis by simp
  next
    case failed: False
    with body_SHEL [OF True sp]
    have "loop_body sys q w =
      (False, w1, [Popen2 [''sh'', ''-i''] True pid, Write_Response \<lparr>result = pid\<rparr>])" by simp
    from loop_trace_step [OF ne this] failed True assms(2) show ?thesis by simp
  qed
next
  case False
  with assms(1) have ex: "cmd q = CMD_EXEC" by simp
  then have ne: "cmd q \<noteq> CMD_EXIT" by (simp add: CMD_values)
  from assms(2,3) False
  have sp: "popen2 sys [''sh'', ''-c'', data q] False w = ((pid, fd_stdin, fd_stdout), w1)" by simp
  show ?thesis
  proof (cases "0 \<le> sint pid")
    case ok: True
    with body_EXEC [OF ex sp]
    have "loop_body sys q w = (False, usb_transfer_socket sys 0 fd_stdout w1,
            [Popen2 [''sh'', ''-c'', data q] False pid, Write_Response \<lparr>result = 0\<rparr>,
             Usb_Transfer_Socket 0 fd_stdout])" by simp
    from loop_trace_step [OF ne this] ok False assms(2) show ?thesis by simp
  next
    case failed: False
    with body_EXEC [OF ex sp]
    have "loop_body sys q w =
      (False, w1, [Popen2 [''sh'', ''-c'', data q] False pid, Write_Response \<lparr>result = pid\<rparr>])"
      by simp
    from loop_trace_step [OF ne this] failed \<open>cmd q \<noteq> CMD_SHEL\<close> assms(2) show ?thesis by simp
  qed
qed

theorem spawn_failure_skips_bridge_witness:
  "loop_trace (device 0 (- 12) (2 :: 32 word)) [frame CMD_EXEC ''ls''] [] =
     [Read_Request (frame CMD_EXEC ''ls''),
      Popen2 [''sh'', ''-c'', data (frame CMD_EXEC ''ls'')] False (- 12),
      Write_Response \<lparr>result = - 12\<rparr>] \<and>
   loop_trace (device 0 7 (2 :: 32 word)) [frame CMD_SHEL ''''] [] =
     [Read_Request (frame CMD_SHEL ''''), Popen2 [''sh'', ''-i''] True 7,
      Write_Response \<lparr>result = 0\<rparr>, Usb_Transfer_Socket 5 6]"
  using spawn_failure_skips_bridge [where q = "frame CMD_EXEC ''ls''"
      and args = "[''sh'', ''-c'', data (frame CMD_EXEC ''ls'')]"
      and sys = "device 0 (- 12) (2 :: 32 word)" and w = "[]" and pid = "- 12"
      and fd_stdin = 5 and fd_stdout = 6 and ?w1.0 = "[]" and pending = "[]"]
    spawn_failure_skips_bridge [where q = "frame CMD_SHEL ''''" and args = "[''sh'', ''-i'']"
      and sys = "device 0 7 (2 :: 32 word)" and w = "[]" and pid = 7
      and fd_stdin = 5 and fd_stdout = 6 and ?w1.0 = "[]" and pending = "[]"]
  by (simp add: device_run)


text \<open>
  Claim C5. An \<open>EXIT\<close> request, whatever came before it: the response carries \<open>0\<close> and
  is the last event of the trace, the loop is left (\<open>Exited\<close>), and every frame the
  host sent after it is still unread.
\<close>

theorem exit_ends_loop:
  assumes "cmd q = CMD_EXIT" and "\<forall>p \<in> set before. cmd p \<noteq> CMD_EXIT"
  shows "usbshell_loop sys (before @ q # after) w =
    (Exited, after, loop_world sys before w,
     loop_trace sys before w @ [Read_Request q, Write_Response \<lparr>result = 0\<rparr>])"
proof -
  have "usbshell_loop sys (q # after) (loop_world sys before w) =
      (Exited, after, loop_world sys before w, [Read_Request q, Write_Response \<lparr>result = 0\<rparr>])"
    by (rule loop_exit [OF assms(1)])
  then show ?thesis
    by (simp add: loop_append [OF assms(2)] loop_outcome_def loop_unread_def loop_world_def
        loop_trace_def)
qed

theorem exit_ends_loop_witness:
  "usbshell_loop (device 0 7 (2 :: 32 word))
     ([frame CMD_TEST ''''] @ frame CMD_EXIT '''' # [frame CMD_TEST ''late'']) [] =
     (Exited, [frame CMD_TEST ''late''], [],
      [Read_Request (frame CMD_TEST ''''), Write_Response \<lparr>result = 0\<rparr>,
       Read_Request (frame CMD_EXIT ''''), Write_Response \<lparr>result = 0\<rparr>])"
  using exit_ends_loop [where q = "frame CMD_EXIT ''''" and before = "[frame CMD_TEST '''']"
      and after = "[frame CMD_TEST ''late'']" and sys = "device 0 7 (2 :: 32 word)" and w = "[]"]
  by (simp add: frame_def CMD_values loop_world_def loop_trace_def usbshell_loop.simps
      loop_body_def USB_RESULT_SUCCESS_def USB_RESULT_ERROR_def)

text \<open>
  Claim C6. A request whose command word is none of the seven tags: the response carries
  \<open>-1\<close>, nothing follows it, and the loop goes on in the same world: the event after the
  response is the read of the next frame the host sends.
\<close>

theorem unknown_command_error:
  assumes "cmd q \<notin> {CMD_TEST, CMD_INFO, CMD_SHEL, CMD_EXEC, CMD_PULL, CMD_BLDR, CMD_EXIT}"
  shows "loop_trace sys (q # pending) w =
           Read_Request q # Write_Response \<lparr>result = - 1\<rparr> # loop_trace sys pending w \<and>
         take 3 (loop_trace sys (q # next_request # pending) w) =
           [Read_Request q, Write_Response \<lparr>result = - 1\<rparr>, Read_Request next_request]"
proof -
  from assms have ne: "cmd q \<noteq> CMD_EXIT" by simp
  have step: "loop_trace sys (q # rest) w =
      Read_Request q # Write_Response \<lparr>result = - 1\<rparr> # loop_trace sys rest w" for rest
    using loop_trace_step [OF ne body_unknown [OF assms]] by simp
  obtain evs where "loop_trace sys (next_request # pending) w = Read_Request next_request # evs"
    using loop_trace_hd [of sys next_request pending w] by blast
  with step show ?thesis by simp
qed

theorem unknown_command_error_witness:
  "loop_trace (device 0 7 (2 :: 32 word))
     [frame (int_of_chars ''XYZQ'') '''', frame CMD_TEST ''''] [] =
     [Read_Request (frame (int_of_chars ''XYZQ'') ''''), Write_Response \<lparr>result = - 1\<rparr>,
      Read_Request (frame CMD_TEST ''''), Write_Response \<lparr>result = 0\<rparr>]"
  using unknown_command_error [where q = "frame (int_of_chars ''XYZQ'') ''''"
      and sys = "device 0 7 (2 :: 32 word)" and w = "[]"
      and pending = "[frame CMD_TEST '''']"]
  by (simp add: device_run int_of_chars_def)

text \<open>
  Claim C3, as amended. A \<open>PULL\<close> request. On the code alone: when \<open>open\<close> returns a
  negative value, the response carries that return value and nothing follows the
  response; otherwise the response carries \<open>0\<close> and is followed by the bytes
  \<open>usb_transfer_read_fd\<close> streams from the descriptor \<open>open\<close> returned, in the world
  \<open>open\<close> left. For a system that keeps \<open>file_stream_contract\<close>: when the path in the
  payload names no readable file the result is \<open>-1\<close> (what \<open>open\<close> returns, whatever
  the reason in \<open>errno\<close>) and no byte stream follows; when it names one, the result is
  \<open>0\<close>, followed by a byte stream equal to the file's contents.
\<close>

theorem pull_result_and_stream:
  assumes "cmd q = CMD_PULL" and "open_rdonly sys (data q) w = ((fd, errno), w1)"
  shows "loop_trace sys (q # pending) w =
       (if sint fd < 0
        then [Read_Request q, Open_Rdonly (data q) fd, Write_Response \<lparr>result = fd\<rparr>] @
             loop_trace sys pending w1
        else [Read_Request q, Open_Rdonly (data q) fd, Write_Response \<lparr>result = 0\<rparr>,
              Usb_Transfer_Read_Fd fd (fst (usb_transfer_read_fd sys fd w1))] @
             loop_trace sys pending (snd (usb_transfer_read_fd sys fd w1))) \<and>
     (file_stream_contract sys contents \<longrightarrow>
       (case contents w (data q) of
          None \<Rightarrow>
            loop_trace sys (q # pending) w =
              [Read_Request q, Open_Rdonly (data q) (- 1), Write_Response \<lparr>result = - 1\<rparr>] @
              loop_trace sys pending w1
        | Some file \<Rightarrow>
            loop_trace sys (q # pending) w =
              [Read_Request q, Open_Rdonly (data q) fd, Write_Response \<lparr>result = 0\<rparr>,
               Usb_Transfer_Read_Fd fd file] @
              loop_trace sys pending (snd (usb_transfer_read_fd sys fd w1))))"
proof (intro conjI impI)
  show "loop_trace sys (q # pending) w =
       (if sint fd < 0
        then [Read_Request q, Open_Rdonly (data q) fd, Write_Response \<lparr>result = fd\<rparr>] @
             loop_trace sys pending w1
        else [Read_Request q, Open_Rdonly (data q) fd, Write_Response \<lparr>result = 0\<rparr>,
              Usb_Transfer_Read_Fd fd (fst (usb_transfer_read_fd sys fd w1))] @
             loop_trace sys pending (snd (usb_transfer_read_fd sys fd w1)))"
    by (rule pull_trace [OF assms])
next
  assume contract: "file_stream_contract sys contents"
  show "case contents w (data q) of
          None \<Rightarrow>
            loop_trace sys (q # pending) w =
              [Read_Request q, Open_Rdonly (data q) (- 1), Write_Response \<lparr>result = - 1\<rparr>] @
              loop_trace sys pending w1
        | Some file \<Rightarrow>
            loop_trace sys (q # pending) w =
              [Read_Request q, Open_Rdonly (data q) fd, Write_Response \<lparr>result = 0\<rparr>,
               Usb_Transfer_Read_Fd fd file] @
              loop_trace sys pending (snd (usb_transfer_read_fd sys fd w1))"
  proof (cases "contents w (data q)")
    case None
    from file_stream_contractD(1) [OF contract assms(2) None] have "fd = - 1" .
    with None show ?thesis
      by (simp add: pull_trace [OF assms])
  next
    case (Some bytes)
    from file_stream_contractD(2) [OF contract assms(2) Some]
    have "0 \<le> sint fd" and "fst (usb_transfer_read_fd sys fd w1) = bytes"
      by simp_all
    with Some show ?thesis
      by (simp add: pull_trace [OF assms])
  qed
qed

theorem pull_result_and_stream_witness:
  "file_stream_contract disk disk_contents \<and>
   loop_trace disk [frame CMD_PULL ''/etc/hosts''] ([(''/etc/hosts'', ''127.0.0.1'')], None) =
     [Read_Request (frame CMD_PULL ''/etc/hosts''),
      Open_Rdonly (data (frame CMD_PULL ''/etc/hosts'')) 3,
      Write_Response \<lparr>result = 0\<rparr>, Usb_Transfer_Read_Fd 3 ''127.0.0.1''] \<and>
   loop_trace disk [frame CMD_PULL ''/missing''] ([(''/etc/hosts'', ''127.0.0.1'')], None) =
     [Read_Request (frame CMD_PULL ''/missing''),
      Open_Rdonly (data (frame CMD_PULL ''/missing'')) (- 1),
      Write_Response \<lparr>result = - 1\<rparr>]"
proof -
  have contract: "file_stream_contract disk disk_contents"
    by (simp add: file_stream_contract_def disk_def disk_contents_def split: option.split)
  have found: "loop_trace disk [frame CMD_PULL ''/etc/hosts'']
       ([(''/etc/hosts'', ''127.0.0.1'')], None) =
     [Read_Request (frame CMD_PULL ''/etc/hosts''),
      Open_Rdonly (data (frame CMD_PULL ''/etc/hosts'')) 3,
      Write_Response \<lparr>result = 0\<rparr>, Usb_Transfer_Read_Fd 3 ''127.0.0.1'']"
    using contract
      pull_result_and_stream [where q = "frame CMD_PULL ''/etc/hosts''" and sys = disk
        and w = "([(''/etc/hosts'', ''127.0.0.1'')], None)" and fd = 3 and errno = 0
        and ?w1.0 = "([(''/etc/hosts'', ''127.0.0.1'')], Some ''127.0.0.1'')"
        and pending = "[]" and contents = disk_contents]
    by (simp add: disk_def disk_contents_def frame_def c_str_def CMD_values loop_trace_def
        usbshell_loop.simps)
  have missing: "loop_trace disk [frame CMD_PULL ''/missing'']
       ([(''/etc/hosts'', ''127.0.0.1'')], None) =
     [Read_Request (frame CMD_PULL ''/missing''),
      Open_Rdonly (data (frame CMD_PULL ''/missing'')) (- 1),
      Write_Response \<lparr>result = - 1\<rparr>]"
    using contract
      pull_result_and_stream [where q = "frame CMD_PULL ''/missing''" and sys = disk
        and w = "([(''/etc/hosts'', ''127.0.0.1'')], None)" and fd = "- 1" and errno = ENOENT
        and ?w1.0 = "([(''/etc/hosts'', ''127.0.0.1'')], None)"
        and pending = "[]" and contents = disk_contents]
    by (simp add: disk_def disk_contents_def frame_def c_str_def CMD_values loop_trace_def
        usbshell_loop.simps)
  from contract found missing show ?thesis by (intro conjI)
qed

text \<open>
  Claim C3 as stated fails on a path that does not exist: \<open>open\<close> returns \<open>-1\<close> and
  sets \<open>errno\<close> to \<open>ENOENT\<close>; the result field is \<open>-1\<close>, which is neither \<open>ENOENT\<close> nor
  its negation.
\<close>

theorem pull_errno_counterexample:
  "open_rdonly (device 0 7 (2 :: 32 word)) (data (frame CMD_PULL ''/missing'')) [] =
     ((- 1, ENOENT), []) \<and>
   responses_written (loop_trace (device 0 7 (2 :: 32 word)) [frame CMD_PULL ''/missing''] []) =
     [\<lparr>result = - 1\<rparr>] \<and>
   sint (- 1 :: s32) \<noteq> ENOENT \<and> sint (- 1 :: s32) \<noteq> - ENOENT"
  by (simp add: device_run)

subsection \<open>The bootloader image\<close>

text \<open>
  Claim C2, as amended. A \<open>BLDR\<close> request: the one response written carries the block
  count converted to \<open>int\<close>, which is the count itself whenever the count is below
  \<open>2^31\<close>. The whole exchange is: the read of the request, \<open>open\<close>, the query of the
  count, the response, \<open>bootloader_get_blocks\<close>, then the data phase in the words of
  the specification (\<open>blocks_in_order\<close> on the descriptors \<open>0\<close> to \<open>count - 1\<close> of the
  array: for each descriptor in turn, \<open>bootloader_read_block\<close> on that descriptor and
  the streaming of the buffer it filled, of the length of that block), then \<open>close\<close>.
  So the \<open>i\<close>-th buffer streamed is what \<open>bootloader_read_block\<close> stored for the \<open>i\<close>-th
  descriptor; the buffers are exactly as many as the count, the \<open>i\<close>-th with the length
  \<open>bootloader_get_block_size\<close> gives for the \<open>i\<close>-th descriptor, and each holds exactly
  as many bytes as the length passed with it.
\<close>

theorem bldr_count_and_blocks:
  assumes "cmd q = CMD_BLDR"
    and "open_rdonly sys (BOOTLOADER_DEV sys) w = ((fd, errno), w1)"
    and "bootloader_get_num_blocks sys w1 = (n, w2)"
    and "bootloader_get_blocks sys fd w2 = (stored, w3)"
  shows "responses_written (loop_trace sys [q] w) = [\<lparr>result = ucast n\<rparr>] \<and>
    (unat n < 2 ^ 31 \<longrightarrow> sint (ucast n :: s32) = int (unat n)) \<and>
    loop_trace sys [q] w =
      [Read_Request q, Open_Rdonly (BOOTLOADER_DEV sys) fd, Bootloader_Get_Num_Blocks (unat n),
       Write_Response \<lparr>result = ucast n\<rparr>, Bootloader_Get_Blocks fd] @
      blocks_in_order sys fd (map stored [0..<unat n]) w3 @ [Close_Fd fd] \<and>
    length (buffers_streamed (loop_trace sys [q] w)) = unat n \<and>
    map snd (buffers_streamed (loop_trace sys [q] w)) =
      map (\<lambda>i. unat (bootloader_get_block_size sys (stored i))) [0..<unat n] \<and>
    list_all (\<lambda>(buf, l). length buf = l) (buffers_streamed (loop_trace sys [q] w))"
proof -
  have "unat n < 2 ^ 31 \<longrightarrow> sint (ucast n :: s32) = int (unat n)"
  proof
    assume "unat n < 2 ^ 31"
    then have "int_of_low32 (unat n) = int (unat n)"
      by (rule int_of_low32_exact)
    then show "sint (ucast n :: s32) = int (unat n)"
      by (simp only: sint_low32)
  qed
  moreover have "length (buffers_streamed (loop_trace sys [q] w)) = unat n"
    using bldr_buffers(1) [OF assms, THEN arg_cong, of length] by simp
  ultimately show ?thesis
    using bldr_response [OF assms(1-3)] bldr_buffers [OF assms] bldr_in_order [OF assms]
    by simp
qed

theorem bldr_count_and_blocks_witness:
  "loop_trace (image_device (2 :: 32 word)) [frame CMD_BLDR ''''] [''/dev/boot''] =
     [Read_Request (frame CMD_BLDR ''''), Open_Rdonly ''/dev/boot'' 3,
      Bootloader_Get_Num_Blocks 2, Write_Response \<lparr>result = 2\<rparr>, Bootloader_Get_Blocks 3,
      Bootloader_Read_Block 3 0, Usb_Transfer_Read_Buffer ''a'' 1,
      Bootloader_Read_Block 3 1, Usb_Transfer_Read_Buffer ''bc'' 2, Close_Fd 3] \<and>
   buffers_streamed
     (loop_trace (image_device (2 :: 32 word)) [frame CMD_BLDR ''''] [''/dev/boot'']) =
     [(''a'', 1), (''bc'', 2)]"
  using bldr_count_and_blocks [where q = "frame CMD_BLDR ''''" and sys = "image_device (2 :: 32 word)"
      and w = "[''/dev/boot'']" and fd = 3 and errno = 0 and ?w1.0 = "[''/dev/boot'']"
      and n = 2 and ?w2.0 = "[''/dev/boot'']" and stored = "\<lambda>i. i" and ?w3.0 = "[''/dev/boot'']"]
  by (simp add: image_device_def device_run upt_rec)

text \<open>
  Claim C2 as stated fails for a count that does not fit an \<open>int\<close>: with a 32-bit
  \<open>size_t\<close> and \<open>2^31\<close> blocks the result field reads \<open>-2^31\<close>, not the count.
\<close>

theorem bldr_count_counterexample:
  "sint (result (hd (responses_written
     (loop_trace (device 0 7 (2147483648 :: 32 word)) [frame CMD_BLDR ''''] [''/dev/boot''])))) =
     - 2147483648 \<and>
   unat (2147483648 :: 32 word) = 2147483648"
  using bldr_response [where q = "frame CMD_BLDR ''''" and sys = "device 0 7 (2147483648 :: 32 word)"
      and w = "[''/dev/boot'']" and fd = 3 and errno = 0 and ?w1.0 = "[''/dev/boot'']"
      and n = 2147483648 and ?w2.0 = "[''/dev/boot'']"]
  by (simp add: device_def frame_def c_str_def CMD_values)

text \<open>
  Claim C8. A \<open>BLDR\<close> request, whatever \<open>open\<close> returned (nothing is assumed of
  \<open>fd\<close>, so a negative value is included): the block count is queried and written as
  the result, there is no other response, \<open>bootloader_get_blocks\<close>, every
  \<open>bootloader_read_block\<close> and \<open>close\<close> are called with the value \<open>open\<close> returned, and
  one buffer per block is streamed.
\<close>

theorem bldr_uses_handle_unchecked:
  assumes "cmd q = CMD_BLDR"
    and "open_rdonly sys (BOOTLOADER_DEV sys) w = ((fd, errno), w1)"
    and "bootloader_get_num_blocks sys w1 = (n, w2)"
  shows "take 5 (loop_trace sys [q] w) =
      [Read_Request q, Open_Rdonly (BOOTLOADER_DEV sys) fd, Bootloader_Get_Num_Blocks (unat n),
       Write_Response \<lparr>result = ucast n\<rparr>, Bootloader_Get_Blocks fd] \<and>
    responses_written (loop_trace sys [q] w) = [\<lparr>result = ucast n\<rparr>] \<and>
    handles_used (loop_trace sys [q] w) = replicate (unat n + 2) fd \<and>
    length (buffers_streamed (loop_trace sys [q] w)) = unat n"
proof -
  obtain stored w3 where gb: "bootloader_get_blocks sys fd w2 = (stored, w3)"
    by (metis surj_pair)
  have "take 5 (loop_trace sys [q] w) =
      [Read_Request q, Open_Rdonly (BOOTLOADER_DEV sys) fd, Bootloader_Get_Num_Blocks (unat n),
       Write_Response \<lparr>result = ucast n\<rparr>, Bootloader_Get_Blocks fd]"
    by (simp add: bldr_trace [OF assms gb])
  moreover have "length (buffers_streamed (loop_trace sys [q] w)) = unat n"
    using bldr_buffers(1) [OF assms gb, THEN arg_cong, of length] by simp
  ultimately show ?thesis
    using bldr_response [OF assms] bldr_handles [OF assms] by simp
qed

theorem bldr_uses_handle_unchecked_witness:
  "loop_trace (device 0 7 (2 :: 32 word)) [frame CMD_BLDR ''''] [] =
     [Read_Request (frame CMD_BLDR ''''), Open_Rdonly ''/dev/boot'' (- 1),
      Bootloader_Get_Num_Blocks 2, Write_Response \<lparr>result = 2\<rparr>, Bootloader_Get_Blocks (- 1),
      Bootloader_Read_Block (- 1) 0, Usb_Transfer_Read_Buffer ''x'' 1,
      Bootloader_Read_Block (- 1) 1, Usb_Transfer_Read_Buffer ''xx'' 2, Close_Fd (- 1)] \<and>
   handles_used (loop_trace (device 0 7 (2 :: 32 word)) [frame CMD_BLDR ''''] []) =
     [- 1, - 1, - 1, - 1]"
  using bldr_uses_handle_unchecked [where q = "frame CMD_BLDR ''''"
      and sys = "device 0 7 (2 :: 32 word)" and w = "[]" and fd = "- 1" and errno = ENOENT
      and ?w1.0 = "[]" and n = 2 and ?w2.0 = "[]"]
  by (simp add: device_run upt_rec)

text \<open>
  Claim C10, as amended. A \<open>BLDR\<close> request: read as a signed \<open>int\<close>, the result field
  is the count reduced modulo \<open>2^32\<close> and reinterpreted in two's complement. It is
  negative exactly for the counts whose residue modulo \<open>2^32\<close> is \<open>2^31\<close> or more; where
  \<open>size_t\<close> has at most 32 bits these are all the counts of \<open>2^31\<close> or more.
\<close>

theorem bldr_result_low32:
  fixes sys :: "('w, 'i, 'b, 's::len) sys"
  assumes "cmd q = CMD_BLDR"
    and "open_rdonly sys (BOOTLOADER_DEV sys) w = ((fd, errno), w1)"
    and "bootloader_get_num_blocks sys w1 = (n, w2)"
  shows "map (\<lambda>r. sint (result r)) (responses_written (loop_trace sys [q] w)) =
      [int_of_low32 (unat n)] \<and>
    (2 ^ 31 \<le> unat n mod 2 ^ 32 \<longrightarrow> int_of_low32 (unat n) < 0) \<and>
    (LENGTH('s) \<le> 32 \<longrightarrow> 2 ^ 31 \<le> unat n \<longrightarrow> int_of_low32 (unat n) < 0)"
proof -
  have "int_of_low32 (unat n) < 0" if "LENGTH('s) \<le> 32" and big: "2 ^ 31 \<le> unat n"
  proof -
    have "unat n < 2 ^ LENGTH('s)"
      by (rule unsigned_less)
    also from that(1) have "(2 :: nat) ^ LENGTH('s) \<le> 2 ^ 32"
      by (intro power_increasing) simp_all
    finally have "unat n mod 2 ^ 32 = unat n"
      by simp
    with big show ?thesis
      by (intro int_of_low32_negative) simp
  qed
  then show ?thesis
    using bldr_response [OF assms] by (simp add: sint_low32 int_of_low32_negative)
qed

theorem bldr_result_low32_witness:
  "map (\<lambda>r. sint (result r)) (responses_written
     (loop_trace (device 0 7 (4294967295 :: 32 word)) [frame CMD_BLDR ''''] [''/dev/boot''])) =
     [- 1]"
  using bldr_result_low32 [where q = "frame CMD_BLDR ''''"
      and sys = "device 0 7 (4294967295 :: 32 word)"
      and w = "[''/dev/boot'']" and fd = 3 and errno = 0 and ?w1.0 = "[''/dev/boot'']"
      and n = 4294967295 and ?w2.0 = "[''/dev/boot'']"]
  by (simp add: device_def frame_def c_str_def CMD_values int_of_low32_def)

text \<open>
  Claim C10 as stated fails where \<open>size_t\<close> is wider than \<open>int\<close>: with a 64-bit
  \<open>size_t\<close> a count of \<open>2^32\<close> is at least \<open>2^31\<close> and reads \<open>0\<close> on the wire.
\<close>

theorem bldr_wide_count_counterexample:
  "sint (result (hd (responses_written
     (loop_trace (device 0 7 (4294967296 :: 64 word)) [frame CMD_BLDR ''''] [''/dev/boot''])))) = 0 \<and>
   (2 ^ 31 :: nat) \<le> unat (4294967296 :: 64 word)"
  using bldr_response [where q = "frame CMD_BLDR ''''" and sys = "device 0 7 (4294967296 :: 64 word)"
      and w = "[''/dev/boot'']" and fd = 3 and errno = 0 and ?w1.0 = "[''/dev/boot'']"
      and n = 4294967296 and ?w2.0 = "[''/dev/boot'']"]
  by (simp add: device_def frame_def c_str_def CMD_values)

subsection \<open>Lock step\<close>

text \<open>
  Claim C1. For every system, every sequence of frames and every starting world, the
  trace of the loop is accepted by the lock-step acceptor: each request frame read is
  followed by exactly one response frame before the next request frame is read, and
  data-phase traffic occurs only between a response and the next read. The frames read
  are, in order, the frames sent up to the point where the loop stopped, and as many
  responses were written as requests were read.
\<close>

theorem one_response_per_request:
  "lock_step (loop_trace sys frames w) \<and>
   requests_read (loop_trace sys frames w) @ loop_unread sys frames w = frames \<and>
   length (responses_written (loop_trace sys frames w)) =
     length (requests_read (loop_trace sys frames w))"
  using loop_phase [of Idle sys frames w] loop_frames [of sys frames w]
  by (simp add: lock_step_def)

end
